theory Spec2Isabelle
  imports Main
begin

section \<open>Data model\<close>

text \<open>
  Pointers are addresses; the null pointer is address 0. \<open>obj_ptr\<close> is a
  \<^verbatim>\<open>SignalObject*\<close>, \<open>mem_ptr\<close> a pointer to member
  \<^verbatim>\<open>void (SignalObject::*)(ParamPack...)\<close>, \<open>addr\<close> a
  \<^verbatim>\<open>Connection<ParamPack...>*\<close>. The \<^verbatim>\<open>static_cast\<close>s of the
  source keep the identity of a pointer and are not written out.
\<close>

type_synonym obj_ptr = nat
type_synonym mem_ptr = nat
type_synonym addr = nat

text \<open>connection.hpp, class Connection: the four private members.\<close>

record connection =
  c_sender :: obj_ptr
  c_receiver :: obj_ptr
  c_signal :: mem_ptr
  c_slot :: mem_ptr

text \<open>connection.hpp, the constructor: the four members are initialised from the arguments.\<close>

definition Connection :: "obj_ptr \<Rightarrow> obj_ptr \<Rightarrow> mem_ptr \<Rightarrow> mem_ptr \<Rightarrow> connection" where
  "Connection sender receiver signal slot =
     \<lparr>c_sender = sender, c_receiver = receiver, c_signal = signal, c_slot = slot\<rparr>"

definition isSender :: "connection \<Rightarrow> obj_ptr \<Rightarrow> bool" where
  "isSender c sender = (sender = c_sender c)"

definition isReceiver :: "connection \<Rightarrow> obj_ptr \<Rightarrow> bool" where
  "isReceiver c receiver = (receiver = c_receiver c)"

definition isSignal :: "connection \<Rightarrow> mem_ptr \<Rightarrow> bool" where
  "isSignal c signal = (signal = c_signal c)"

definition isSlot :: "connection \<Rightarrow> mem_ptr \<Rightarrow> bool" where
  "isSlot c slot = (slot = c_slot c)"

text \<open>
  What the source leaves undefined is a value of the model: dereferencing a pointer to a
  deleted (or null) connection, erasing at a position that is not an element of the
  vector, and using an iterator into storage that the vector has given up.
\<close>

datatype ub = InvalidDeref | EraseOutOfRange | InvalidIterator

text \<open>
  One channel: the variable template \<^verbatim>\<open>_connections<ParamPack...>\<close>, a
  \<^verbatim>\<open>std::vector<Connection<ParamPack...>*>\<close>, with the connection objects it
  points to. The objects live in a heap of their own type: \<open>heap\<close> maps an address to
  the object allocated there, \<open>nxt\<close> is the next address \<^verbatim>\<open>new\<close> hands out
  (allocation is taken to succeed; addresses are not reused). The vector is its
  contiguous storage: first the elements \<open>elems\<close> (\<^verbatim>\<open>begin()\<close> to
  \<^verbatim>\<open>end()\<close>), then the slots \<open>slack\<close> up to the capacity; \<open>gen\<close> counts the
  reallocations of the storage. The slots past the end are modelled because the loops
  of the source keep reading the storage through the iterators of a range-for while
  elements are erased: a slot past the last element still holds what was last written
  there.
\<close>

record chan =
  heap :: "addr \<Rightarrow> connection option"
  nxt :: addr
  elems :: "addr list"
  slack :: "addr list"
  gen :: nat

definition empty_chan :: chan where
  "empty_chan = \<lparr>heap = (\<lambda>a. None), nxt = 1, elems = [], slack = [], gen = 0\<rparr>"

definition storage :: "chan \<Rightarrow> addr list" where
  "storage v = elems v @ slack v"

text \<open>
  \<^verbatim>\<open>push_back\<close>: into the free slot after the last element when there is one;
  otherwise the elements move to new storage of twice the size (of size one when the
  vector was empty), and every iterator into the old storage is invalid, which the
  changed \<open>gen\<close> records.
\<close>

definition push_back :: "addr \<Rightarrow> chan \<Rightarrow> chan" where
  "push_back a v =
     (case slack v of
        [] \<Rightarrow> v\<lparr>elems := elems v @ [a],
                 slack := replicate (max (length (elems v)) 1 - 1) 0,
                 gen := Suc (gen v)\<rparr>
      | k # ks \<Rightarrow> v\<lparr>elems := elems v @ [a], slack := ks\<rparr>)"

text \<open>
  \<^verbatim>\<open>erase(begin() + i)\<close>: the elements after position \<open>i\<close> move down by one and
  the end moves down by one; the storage is kept, so the slot of the old last element,
  now the first one past the end, keeps its value. Erasing at a position that holds no
  element is undefined.
\<close>

definition erase :: "nat \<Rightarrow> chan \<Rightarrow> ub + chan" where
  "erase i v =
     (if i < length (elems v)
      then Inr (v\<lparr>elems := take i (elems v) @ drop (Suc i) (elems v),
                  slack := last (elems v) # slack v\<rparr>)
      else Inl EraseOutOfRange)"

text \<open>
  The whole program state: one channel per argument signature \<open>'sg\<close> (the template
  arguments \<^verbatim>\<open>ParamPack...\<close>), the trace of what an emission did, and the state
  \<open>'u\<close> of the participating objects, which only slots touch. A slot is arbitrary code
  of the user: the table \<open>h\<close> gives, for a receiver, a member pointer and the arguments
  \<open>'a\<close>, the effect of the call on the whole state, so a slot may call back into
  connect, disconnect and fireAllSlots.
\<close>

datatype 'a event = Fired addr 'a | Called obj_ptr mem_ptr 'a

record ('sg, 'a, 'u) registry =
  chans :: "'sg \<Rightarrow> chan"
  trace :: "'a event list"
  user :: 'u

type_synonym ('sg, 'a, 'u) slots =
  "obj_ptr \<Rightarrow> mem_ptr \<Rightarrow> 'a \<Rightarrow> ('sg, 'a, 'u) registry \<Rightarrow> ub + ('sg, 'a, 'u) registry"

definition init :: "'u \<Rightarrow> ('sg, 'a, 'u) registry" where
  "init u = \<lparr>chans = (\<lambda>sg. empty_chan), trace = [], user = u\<rparr>"

section \<open>Operations\<close>

text \<open>
  connection.hpp, \<^verbatim>\<open>Connection::fireSlot\<close>: the slot is called on the receiver
  only if both are set. The call is recorded in the trace as \<open>Called\<close> before the body
  of the slot runs.
\<close>

definition fireSlot ::
  "('sg, 'a, 'u) slots \<Rightarrow> connection \<Rightarrow> 'a \<Rightarrow> ('sg, 'a, 'u) registry
     \<Rightarrow> ub + ('sg, 'a, 'u) registry" where
  "fireSlot h c args st =
     (if c_receiver c \<noteq> 0 \<and> c_slot c \<noteq> 0
      then h (c_receiver c) (c_slot c) args
             (st\<lparr>trace := trace st @ [Called (c_receiver c) (c_slot c) args]\<rparr>)
      else Inr st)"

text \<open>
  signalObject.hpp, \<^verbatim>\<open>SignalObject::connect\<close>: a new connection object is
  allocated and its address appended to the channel of the signature.
\<close>

definition connect_chan :: "obj_ptr \<Rightarrow> obj_ptr \<Rightarrow> mem_ptr \<Rightarrow> mem_ptr \<Rightarrow> chan \<Rightarrow> chan" where
  "connect_chan sender receiver signal slot v =
     (let connection = nxt v
      in push_back connection
           (v\<lparr>heap := (heap v)(connection \<mapsto> Connection sender receiver signal slot),
              nxt := Suc connection\<rparr>))"

definition connect ::
  "'sg \<Rightarrow> obj_ptr \<Rightarrow> obj_ptr \<Rightarrow> mem_ptr \<Rightarrow> mem_ptr \<Rightarrow> ('sg, 'a, 'u) registry
     \<Rightarrow> ('sg, 'a, 'u) registry" where
  "connect sg sender receiver signal slot st =
     st\<lparr>chans := (chans st)(sg := connect_chan sender receiver signal slot (chans st sg))\<rparr>"

text \<open>
  signalObject.hpp, \<^verbatim>\<open>SignalObject::disconnect\<close>. The range-for takes
  \<^verbatim>\<open>begin()\<close> and \<^verbatim>\<open>end()\<close> once, before the first iteration, and
  then steps its own iterator: \<open>n\<close> is the offset of that \<^verbatim>\<open>end()\<close>, and the
  offset of the stepping iterator always equals the counter \<^verbatim>\<open>iterator\<close> of the
  source (both start at 0 and grow by one per iteration), so one parameter stands for
  both. Each iteration reads the slot at that offset, dereferences it in
  \<^verbatim>\<open>isSender\<close>, and on a match on all four identities deletes the object and
  erases the element at index \<^verbatim>\<open>iterator\<close>. The loop does not notice that the
  vector got shorter.

  By the letter of the language the iterators of the range-for are invalid from the
  first erase on. The model follows what the contiguous storage of a vector does, on
  which the loop goes on as written, and counts as undefined only the dereference of a
  deleted object, an erase at a position without an element, and an iterator into
  storage that was given up.
\<close>

function disconnect_loop ::
  "obj_ptr \<Rightarrow> obj_ptr \<Rightarrow> mem_ptr \<Rightarrow> mem_ptr \<Rightarrow> nat \<Rightarrow> nat \<Rightarrow> chan \<Rightarrow> ub + chan" where
  "disconnect_loop sender receiver signal slot iterator n v =
     (if iterator < n then
        (if length (storage v) \<le> iterator then Inl InvalidIterator
         else
           (let connection = storage v ! iterator in
            case heap v connection of
              None \<Rightarrow> Inl InvalidDeref
            | Some c \<Rightarrow>
                if isSender c sender \<and> isReceiver c receiver \<and>
                   isSignal c signal \<and> isSlot c slot
                then (case erase iterator (v\<lparr>heap := (heap v)(connection := None)\<rparr>) of
                        Inl e \<Rightarrow> Inl e
                      | Inr v' \<Rightarrow>
                          disconnect_loop sender receiver signal slot (Suc iterator) n v')
                else disconnect_loop sender receiver signal slot (Suc iterator) n v))
      else Inr v)"
  by pat_completeness auto
termination
  by (relation "measure (\<lambda>(sender, receiver, signal, slot, iterator, n, v). n - iterator)") auto

declare disconnect_loop.simps [simp del]

definition disconnect_chan ::
  "obj_ptr \<Rightarrow> obj_ptr \<Rightarrow> mem_ptr \<Rightarrow> mem_ptr \<Rightarrow> chan \<Rightarrow> ub + chan" where
  "disconnect_chan sender receiver signal slot v =
     disconnect_loop sender receiver signal slot 0 (length (elems v)) v"

definition disconnect ::
  "'sg \<Rightarrow> obj_ptr \<Rightarrow> obj_ptr \<Rightarrow> mem_ptr \<Rightarrow> mem_ptr \<Rightarrow> ('sg, 'a, 'u) registry
     \<Rightarrow> ub + ('sg, 'a, 'u) registry" where
  "disconnect sg sender receiver signal slot st =
     (case disconnect_chan sender receiver signal slot (chans st sg) of
        Inl e \<Rightarrow> Inl e
      | Inr v' \<Rightarrow> Inr (st\<lparr>chans := (chans st)(sg := v')\<rparr>))"

text \<open>
  signalObject.hpp, \<^verbatim>\<open>SignalObject::fireAllSlots\<close>. Again the range-for fixes
  its end \<open>n\<close> before the first iteration; \<open>g\<close> is the storage the iterators point into.
  Each iteration reads the slot at offset \<open>p\<close> of the channel as it is then (a slot called
  earlier in the walk may have changed it), and the condition is evaluated left to
  right: the connection is dereferenced only when \<open>sender\<close> and the pointer read are
  both non-null. The call of \<^verbatim>\<open>fireSlot\<close> on a connection is recorded in the
  trace as \<open>Fired\<close>.
\<close>

function fire_loop ::
  "('sg, 'a, 'u) slots \<Rightarrow> 'sg \<Rightarrow> obj_ptr \<Rightarrow> mem_ptr \<Rightarrow> 'a \<Rightarrow> nat \<Rightarrow> nat \<Rightarrow> nat
     \<Rightarrow> ('sg, 'a, 'u) registry \<Rightarrow> ub + ('sg, 'a, 'u) registry" where
  "fire_loop h sg sender signal args g p n st =
     (if p < n then
        (if gen (chans st sg) \<noteq> g \<or> length (storage (chans st sg)) \<le> p
         then Inl InvalidIterator
         else
           (let connection = storage (chans st sg) ! p in
            if sender \<noteq> 0 \<and> connection \<noteq> 0 then
              (case heap (chans st sg) connection of
                 None \<Rightarrow> Inl InvalidDeref
               | Some c \<Rightarrow>
                   if isSender c sender \<and> isSignal c signal
                   then (case fireSlot h c args
                                (st\<lparr>trace := trace st @ [Fired connection args]\<rparr>) of
                           Inl e \<Rightarrow> Inl e
                         | Inr st' \<Rightarrow> fire_loop h sg sender signal args g (Suc p) n st')
                   else fire_loop h sg sender signal args g (Suc p) n st)
            else fire_loop h sg sender signal args g (Suc p) n st))
      else Inr st)"
  by pat_completeness auto
termination
  by (relation "measure (\<lambda>(h, sg, sender, signal, args, g, p, n, st). n - p)") auto

declare fire_loop.simps [simp del]

definition fireAllSlots ::
  "('sg, 'a, 'u) slots \<Rightarrow> 'sg \<Rightarrow> obj_ptr \<Rightarrow> mem_ptr \<Rightarrow> 'a \<Rightarrow> ('sg, 'a, 'u) registry
     \<Rightarrow> ub + ('sg, 'a, 'u) registry" where
  "fireAllSlots h sg sender signal args st =
     fire_loop h sg sender signal args (gen (chans st sg)) 0 (length (elems (chans st sg))) st"

section \<open>Notions the properties are stated with\<close>

text \<open>
  A channel is well formed when the vector holds distinct, non-null addresses of
  allocated connections, all handed out before \<open>nxt\<close>. The channels the program can
  reach without undefined behaviour are well formed (\<open>reachable_wf\<close> below).
\<close>

definition wf_chan :: "chan \<Rightarrow> bool" where
  "wf_chan v = (0 < nxt v \<and> distinct (elems v) \<and>
     (\<forall>a\<in>set (elems v). 0 < a \<and> a < nxt v \<and> heap v a \<noteq> None))"

inductive reachable :: "chan \<Rightarrow> bool" where
  empty: "reachable empty_chan"
| connected: "reachable v \<Longrightarrow> reachable (connect_chan sender receiver signal slot v)"
| disconnected:
    "reachable v \<Longrightarrow> disconnect_chan sender receiver signal slot v = Inr v' \<Longrightarrow> reachable v'"

text \<open>
  The Binding Records of a channel, in the order of the vector: each element with the
  connection object it points to.
\<close>

fun snap_of :: "(addr \<Rightarrow> connection option) \<Rightarrow> addr list \<Rightarrow> (addr \<times> connection) list" where
  "snap_of hp [] = []"
| "snap_of hp (a # as) =
     (case hp a of None \<Rightarrow> snap_of hp as | Some c \<Rightarrow> (a, c) # snap_of hp as)"

definition snapshot :: "chan \<Rightarrow> (addr \<times> connection) list" where
  "snapshot v = snap_of (heap v) (elems v)"

text \<open>
  The emission as the specification words it, not the source: a walk over a snapshot
  of the channel taken at the start of the call. The records of the snapshot are visited
  one by one with the test and the call of the source's loop body; what the slots do
  to the channel meanwhile does not reach the walk.
\<close>

fun walk_snapshot ::
  "('sg, 'a, 'u) slots \<Rightarrow> obj_ptr \<Rightarrow> mem_ptr \<Rightarrow> 'a \<Rightarrow> (addr \<times> connection) list
     \<Rightarrow> ('sg, 'a, 'u) registry \<Rightarrow> ub + ('sg, 'a, 'u) registry" where
  "walk_snapshot h sender signal args [] st = Inr st"
| "walk_snapshot h sender signal args ((a, c) # cs) st =
     (if sender \<noteq> 0 \<and> isSender c sender \<and> isSignal c signal
      then (case fireSlot h c args (st\<lparr>trace := trace st @ [Fired a args]\<rparr>) of
              Inl e \<Rightarrow> Inl e
            | Inr st' \<Rightarrow> walk_snapshot h sender signal args cs st')
      else walk_snapshot h sender signal args cs st)"

definition emit_snapshot ::
  "('sg, 'a, 'u) slots \<Rightarrow> 'sg \<Rightarrow> obj_ptr \<Rightarrow> mem_ptr \<Rightarrow> 'a \<Rightarrow> ('sg, 'a, 'u) registry
     \<Rightarrow> ub + ('sg, 'a, 'u) registry" where
  "emit_snapshot h sg sender signal args st =
     walk_snapshot h sender signal args (snapshot (chans st sg)) st"

text \<open>
  Two conditions on the slots. \<open>keeps sg h\<close>: no slot, when it returns, has changed
  the channel of \<open>sg\<close>. \<open>inert h\<close>: every slot returns and changes nothing but the
  state of the user objects, so it calls neither connect nor disconnect nor
  fireAllSlots.
\<close>

definition keeps :: "'sg \<Rightarrow> ('sg, 'a, 'u) slots \<Rightarrow> bool" where
  "keeps sg h = (\<forall>r s x st st'. h r s x st = Inr st' \<longrightarrow> chans st' sg = chans st sg)"

definition inert :: "('sg, 'a, 'u) slots \<Rightarrow> bool" where
  "inert h = (\<forall>r s x st. \<exists>u. h r s x st = Inr (st\<lparr>user := u\<rparr>))"

text \<open>A connection matches a tuple when all four identities are equal.\<close>

definition matches :: "obj_ptr \<Rightarrow> obj_ptr \<Rightarrow> mem_ptr \<Rightarrow> mem_ptr \<Rightarrow> connection \<Rightarrow> bool" where
  "matches sender receiver signal slot c =
     (isSender c sender \<and> isReceiver c receiver \<and> isSignal c signal \<and> isSlot c slot)"

text \<open>
  The events one emission over the records \<open>cs\<close> adds to the trace when the slots are
  inert.
\<close>

definition emission :: "obj_ptr \<Rightarrow> mem_ptr \<Rightarrow> 'a \<Rightarrow> (addr \<times> connection) list \<Rightarrow> 'a event list" where
  "emission sender signal args cs =
     concat (map (\<lambda>(a, c).
        if sender \<noteq> 0 \<and> isSender c sender \<and> isSignal c signal
        then Fired a args #
             (if c_receiver c \<noteq> 0 \<and> c_slot c \<noteq> 0
              then [Called (c_receiver c) (c_slot c) args] else [])
        else []) cs)"

text \<open>The connections an event list records as fired, with the arguments passed.\<close>

fun fired :: "'a event list \<Rightarrow> (addr \<times> 'a) list" where
  "fired [] = []"
| "fired (Fired a x # es) = (a, x) # fired es"
| "fired (Called r s x # es) = fired es"

text \<open>The arguments of the calls of \<open>slot\<close> on \<open>receiver\<close> that an event list records.\<close>

fun calls_to :: "obj_ptr \<Rightarrow> mem_ptr \<Rightarrow> 'a event list \<Rightarrow> 'a list" where
  "calls_to receiver slot [] = []"
| "calls_to receiver slot (Fired a x # es) = calls_to receiver slot es"
| "calls_to receiver slot (Called r s x # es) =
     (if r = receiver \<and> s = slot then x # calls_to receiver slot es
      else calls_to receiver slot es)"

text \<open>What a run that started in \<open>st\<close> added to the trace.\<close>

definition emitted ::
  "('sg, 'a, 'u) registry \<Rightarrow> ub + ('sg, 'a, 'u) registry \<Rightarrow> ub + 'a event list" where
  "emitted st res =
     (case res of Inl e \<Rightarrow> Inl e | Inr st' \<Rightarrow> Inr (drop (length (trace st)) (trace st')))"

text \<open>One emission, observed: the connections it fired, and the calls it made of one slot.\<close>

definition emit_fired ::
  "('sg, 'a, 'u) slots \<Rightarrow> 'sg \<Rightarrow> obj_ptr \<Rightarrow> mem_ptr \<Rightarrow> 'a \<Rightarrow> ('sg, 'a, 'u) registry
     \<Rightarrow> ub + (addr \<times> 'a) list" where
  "emit_fired h sg sender signal args st =
     (case emitted st (fireAllSlots h sg sender signal args st) of
        Inl e \<Rightarrow> Inl e | Inr es \<Rightarrow> Inr (fired es))"

definition emit_calls ::
  "('sg, 'a, 'u) slots \<Rightarrow> 'sg \<Rightarrow> obj_ptr \<Rightarrow> mem_ptr \<Rightarrow> 'a \<Rightarrow> obj_ptr \<Rightarrow> mem_ptr
     \<Rightarrow> ('sg, 'a, 'u) registry \<Rightarrow> ub + 'a list" where
  "emit_calls h sg sender signal args receiver slot st =
     (case emitted st (fireAllSlots h sg sender signal args st) of
        Inl e \<Rightarrow> Inl e | Inr es \<Rightarrow> Inr (calls_to receiver slot es))"

text \<open>The connections of a channel that match a tuple on all four identities.\<close>

definition bindings_of ::
  "obj_ptr \<Rightarrow> obj_ptr \<Rightarrow> mem_ptr \<Rightarrow> mem_ptr \<Rightarrow> chan \<Rightarrow> (addr \<times> connection) list" where
  "bindings_of sender receiver signal slot v =
     filter (\<lambda>(a, c). matches sender receiver signal slot c) (snapshot v)"


text \<open>Slots that only count their calls in the user state, and the states used as examples.\<close>

definition counting :: "('sg, 'a, nat) slots" where
  "counting r s x st = Inr (st\<lparr>user := Suc (user st)\<rparr>)"

definition demo :: "(string list, int list, nat) registry" where
  "demo = init 0"

definition two_bound :: "(string list, int list, nat) registry" where
  "two_bound = connect [''int''] 1 3 4 3 (connect [''int''] 1 2 4 5 demo)"

text \<open>
  A slot that disconnects its own binding when it is called: receiver 2, slot 3, bound to
  signal 4 of sender 1 on the channel of signature (int).
\<close>

definition detaching :: "(string list, int list, nat) slots" where
  "detaching r s x st =
     (if r = 2 \<and> s = 3 then disconnect [''int''] 1 2 4 3 st else Inr st)"

definition three_bound :: "(string list, int list, nat) registry" where
  "three_bound =
     connect [''int''] 1 6 4 3 (connect [''int''] 1 5 4 3 (connect [''int''] 1 2 4 3 demo))"

definition null_bound :: "(string list, int list, nat) registry" where
  "null_bound = connect [''int''] 0 2 4 3 demo"

definition doubled :: "(string list, int list, nat) registry" where
  "doubled =
     connect [''int''] 1 5 4 3 (connect [''int''] 1 2 4 3 (connect [''int''] 1 2 4 3 demo))"

definition twice_bound :: "(string list, int list, nat) registry" where
  "twice_bound = connect [''int''] 1 2 4 3 (connect [''int''] 1 2 4 3 demo)"

definition other_bound :: "(string list, int list, nat) registry" where
  "other_bound = connect [''int'', ''int''] 1 2 4 3 demo"

text \<open>
  A slot that connects a further receiver when it is called, and a channel whose vector
  is full (two elements in storage for two).
\<close>

definition attaching :: "(string list, int list, nat) slots" where
  "attaching r s x st =
     (if r = 2 \<and> s = 3 then Inr (connect [''int''] 1 7 4 3 st) else Inr st)"

definition pair_bound :: "(string list, int list, nat) registry" where
  "pair_bound = connect [''int''] 1 5 4 3 (connect [''int''] 1 2 4 3 demo)"

text \<open>
  Two conditions on one emission, on what the slots it calls do. The records of the
  channel are gone through in their order, with the tests of the source's loop body,
  and every slot call is looked at in the state in which it is made. \<open>undisturbed\<close>: each
  call that returns leaves the channel of \<open>sg\<close> as it found it. \<open>calm\<close>: each call returns,
  and leaves the channel of \<open>sg\<close> and the trace as it found them, so it calls neither
  connect nor disconnect on the channel and emits nothing itself. As long as every call
  so far has left the channel alone, the calls gone through are the calls the source
  makes (\<open>fireAllSlots_undisturbed\<close> below); a slot that is never called in this
  emission is not constrained.
\<close>

fun undisturbed ::
  "('sg, 'a, 'u) slots \<Rightarrow> 'sg \<Rightarrow> obj_ptr \<Rightarrow> mem_ptr \<Rightarrow> 'a \<Rightarrow> (addr \<times> connection) list
     \<Rightarrow> ('sg, 'a, 'u) registry \<Rightarrow> bool" where
  "undisturbed h sg sender signal args [] st = True"
| "undisturbed h sg sender signal args ((a, c) # cs) st =
     (if sender \<noteq> 0 \<and> isSender c sender \<and> isSignal c signal then
        (if c_receiver c \<noteq> 0 \<and> c_slot c \<noteq> 0 then
           (case h (c_receiver c) (c_slot c) args
                   (st\<lparr>trace := trace st @
                        [Fired a args, Called (c_receiver c) (c_slot c) args]\<rparr>) of
              Inl e \<Rightarrow> True
            | Inr st' \<Rightarrow> chans st' sg = chans st sg \<and>
                         undisturbed h sg sender signal args cs st')
         else undisturbed h sg sender signal args cs (st\<lparr>trace := trace st @ [Fired a args]\<rparr>))
      else undisturbed h sg sender signal args cs st)"


definition undisturbed_emit ::
  "('sg, 'a, 'u) slots \<Rightarrow> 'sg \<Rightarrow> obj_ptr \<Rightarrow> mem_ptr \<Rightarrow> 'a \<Rightarrow> ('sg, 'a, 'u) registry \<Rightarrow> bool" where
  "undisturbed_emit h sg sender signal args st =
     undisturbed h sg sender signal args (snapshot (chans st sg)) st"




definition rest_bound :: "(string list, int list, nat) registry" where
  "rest_bound = connect [''int''] 1 6 4 3 (connect [''int''] 1 5 4 3 demo)"


section \<open>Lemmas\<close>

subsection \<open>fireAllSlots\<close>

lemma inert_keeps: "inert h \<Longrightarrow> keeps sg h"
  unfolding inert_def keeps_def
  by (metis Inr_inject registry.select_convs(1) registry.surjective registry.update_convs(3))

lemma fireSlot_keeps:
  "keeps sg h \<Longrightarrow> fireSlot h c args st = Inr st' \<Longrightarrow> chans st' sg = chans st sg"
  unfolding keeps_def fireSlot_def
  by (fastforce split: if_splits)

lemma fire_loop_done: "n \<le> p \<Longrightarrow> fire_loop h sg sender signal args g p n st = Inr st"
  by (subst fire_loop.simps) simp

lemma fire_loop_step:
  assumes "p < n" "gen (chans st sg) = g" "p < length (elems (chans st sg))"
    and "heap (chans st sg) (elems (chans st sg) ! p) = Some c"
    and "elems (chans st sg) ! p \<noteq> 0"
  shows "fire_loop h sg sender signal args g p n st =
     (if sender \<noteq> 0 \<and> isSender c sender \<and> isSignal c signal
      then (case fireSlot h c args
                   (st\<lparr>trace := trace st @ [Fired (elems (chans st sg) ! p) args]\<rparr>) of
              Inl e \<Rightarrow> Inl e
            | Inr st' \<Rightarrow> fire_loop h sg sender signal args g (Suc p) n st')
      else fire_loop h sg sender signal args g (Suc p) n st)"
proof -
  have "storage (chans st sg) ! p = elems (chans st sg) ! p" "p < length (storage (chans st sg))"
    using assms(3) by (simp_all add: storage_def nth_append)
  then show ?thesis
    using assms by (subst fire_loop.simps) (simp add: Let_def)
qed

lemma snap_of_drop:
  "p < length as \<Longrightarrow> hp (as ! p) = Some c \<Longrightarrow>
   snap_of hp (drop p as) = (as ! p, c) # snap_of hp (drop (Suc p) as)"
  by (simp add: Cons_nth_drop_Suc[symmetric])

lemma fire_loop_walk:
  assumes k: "keeps sg h" and wf: "wf_chan v"
  shows "chans st sg = v \<Longrightarrow> gen v = g \<Longrightarrow> n \<le> length (elems v) \<Longrightarrow>
     fire_loop h sg sender signal args g p n st =
     walk_snapshot h sender signal args (snap_of (heap v) (drop p (take n (elems v)))) st"
proof (induction "n - p" arbitrary: p st)
  case 0
  then show ?case by (simp add: fire_loop_done)
next
  case (Suc k)
  then have pn: "p < n" by simp
  with Suc.prems have pl: "p < length (elems v)" by simp
  have tn: "take n (elems v) ! p = elems v ! p" "p < length (take n (elems v))"
    using pn pl by simp_all
  have mem: "elems v ! p \<in> set (elems v)" using pl by simp
  with wf obtain c where c: "heap v (elems v ! p) = Some c" and nz: "elems v ! p \<noteq> 0"
    unfolding wf_chan_def by fastforce
  have dr: "snap_of (heap v) (drop p (take n (elems v))) =
      (elems v ! p, c) # snap_of (heap v) (drop (Suc p) (take n (elems v)))"
    using snap_of_drop[of p "take n (elems v)" "heap v" c] tn c by simp
  have IH: "\<And>st'. chans st' sg = v \<Longrightarrow> fire_loop h sg sender signal args g (Suc p) n st' =
     walk_snapshot h sender signal args (snap_of (heap v) (drop (Suc p) (take n (elems v)))) st'"
    using Suc.hyps(1)[of "Suc p"] Suc.hyps(2) Suc.prems by simp
  have step: "fire_loop h sg sender signal args g p n st =
     (if sender \<noteq> 0 \<and> isSender c sender \<and> isSignal c signal
      then (case fireSlot h c args (st\<lparr>trace := trace st @ [Fired (elems v ! p) args]\<rparr>) of
              Inl e \<Rightarrow> Inl e
            | Inr st' \<Rightarrow> fire_loop h sg sender signal args g (Suc p) n st')
      else fire_loop h sg sender signal args g (Suc p) n st)"
    using fire_loop_step[of p n st sg g c h sender signal args] pn pl c nz Suc.prems(1,2) by simp
  show ?case
  proof (cases "sender \<noteq> 0 \<and> isSender c sender \<and> isSignal c signal")
    case True
    let ?st1 = "st\<lparr>trace := trace st @ [Fired (elems v ! p) args]\<rparr>"
    show ?thesis
    proof (cases "fireSlot h c args ?st1")
      case (Inl e)
      then show ?thesis using True step dr by simp
    next
      case (Inr st')
      then have "chans st' sg = v" using fireSlot_keeps[OF k Inr] Suc.prems(1) by simp
      from IH[OF this] show ?thesis using True step dr Inr by simp
    qed
  next
    case False
    then show ?thesis using step dr IH[OF Suc.prems(1)] by auto
  qed
qed

lemma fireAllSlots_snapshot:
  "keeps sg h \<Longrightarrow> wf_chan (chans st sg) \<Longrightarrow>
   fireAllSlots h sg sender signal args st = emit_snapshot h sg sender signal args st"
  unfolding fireAllSlots_def emit_snapshot_def
  using fire_loop_walk[of sg h "chans st sg" st "gen (chans st sg)"
          "length (elems (chans st sg))" sender signal args 0]
  by (simp add: snapshot_def)

lemma fireSlot_inert:
  "inert h \<Longrightarrow> \<exists>u. fireSlot h c args st =
      Inr (st\<lparr>trace := trace st @ (if c_receiver c \<noteq> 0 \<and> c_slot c \<noteq> 0
                 then [Called (c_receiver c) (c_slot c) args] else []), user := u\<rparr>)"
  unfolding inert_def fireSlot_def
  apply (simp split: if_splits)
  apply (metis registry.surjective registry.update_convs(3))
  done

lemma walk_snapshot_inert:
  assumes "inert h"
  shows "\<exists>u. walk_snapshot h sender signal args cs st =
      Inr (st\<lparr>trace := trace st @ emission sender signal args cs, user := u\<rparr>)"
proof (induction cs arbitrary: st)
  case Nil
  show ?case
    by (rule exI[of _ "user st"]) (simp add: emission_def)
next
  case (Cons ac cs)
  obtain a c where ac: "ac = (a, c)" by (cases ac)
  show ?case
  proof (cases "sender \<noteq> 0 \<and> isSender c sender \<and> isSignal c signal")
    case True
    let ?st1 = "st\<lparr>trace := trace st @ [Fired a args]\<rparr>"
    from fireSlot_inert[OF assms, of c args ?st1] obtain u where
      u: "fireSlot h c args ?st1 = Inr (?st1\<lparr>trace := trace ?st1 @ (if c_receiver c \<noteq> 0 \<and> c_slot c \<noteq> 0
                 then [Called (c_receiver c) (c_slot c) args] else []), user := u\<rparr>)" by blast
    let ?st2 = "?st1\<lparr>trace := trace ?st1 @ (if c_receiver c \<noteq> 0 \<and> c_slot c \<noteq> 0
                 then [Called (c_receiver c) (c_slot c) args] else []), user := u\<rparr>"
    from Cons.IH[of ?st2] obtain u' where
      "walk_snapshot h sender signal args cs ?st2 =
         Inr (?st2\<lparr>trace := trace ?st2 @ emission sender signal args cs, user := u'\<rparr>)" by blast
    then show ?thesis
      using True u ac by (intro exI[of _ u']) (simp add: emission_def)
  next
    case False
    from Cons.IH[of st] obtain u' where
      "walk_snapshot h sender signal args cs st =
         Inr (st\<lparr>trace := trace st @ emission sender signal args cs, user := u'\<rparr>)" by blast
    then show ?thesis
      using False ac by (intro exI[of _ u']) (auto simp add: emission_def)
  qed
qed

lemma fireAllSlots_inert:
  assumes "inert h" "wf_chan (chans st sg)"
  shows "\<exists>u. fireAllSlots h sg sender signal args st =
      Inr (st\<lparr>trace := trace st @ emission sender signal args (snapshot (chans st sg)), user := u\<rparr>)"
  using fireAllSlots_snapshot[OF inert_keeps[OF assms(1)] assms(2)]
        walk_snapshot_inert[OF assms(1)]
  by (simp add: emit_snapshot_def)

subsection \<open>connect\<close>

lemma elems_push_back: "elems (push_back a v) = elems v @ [a]"
  by (simp add: push_back_def split: list.splits)

lemma heap_push_back: "heap (push_back a v) = heap v"
  by (simp add: push_back_def split: list.splits)

lemma nxt_push_back: "nxt (push_back a v) = nxt v"
  by (simp add: push_back_def split: list.splits)

lemma elems_connect_chan: "elems (connect_chan s r e sl v) = elems v @ [nxt v]"
  by (simp add: connect_chan_def Let_def elems_push_back)

lemma heap_connect_chan: "heap (connect_chan s r e sl v) = (heap v)(nxt v \<mapsto> Connection s r e sl)"
  by (simp add: connect_chan_def Let_def heap_push_back)

lemma nxt_connect_chan: "nxt (connect_chan s r e sl v) = Suc (nxt v)"
  by (simp add: connect_chan_def Let_def nxt_push_back)

lemma wf_empty_chan: "wf_chan empty_chan"
  by (simp add: wf_chan_def empty_chan_def)

lemma wf_connect_chan: "wf_chan v \<Longrightarrow> wf_chan (connect_chan s r e sl v)"
  unfolding wf_chan_def
  by (auto simp add: elems_connect_chan heap_connect_chan nxt_connect_chan)

lemma snap_of_append: "snap_of hp (as @ bs) = snap_of hp as @ snap_of hp bs"
  by (induction as) (auto split: option.splits)

lemma snap_of_fresh: "b \<notin> set as \<Longrightarrow> snap_of (hp(b := x)) as = snap_of hp as"
  by (induction as) (auto split: option.splits)

lemma snapshot_connect_chan:
  assumes "wf_chan v"
  shows "snapshot (connect_chan s r e sl v) = snapshot v @ [(nxt v, Connection s r e sl)]"
proof -
  have "nxt v \<notin> set (elems v)" using assms unfolding wf_chan_def by auto
  then show ?thesis
    by (simp add: snapshot_def elems_connect_chan heap_connect_chan snap_of_append snap_of_fresh)
qed

subsection \<open>disconnect\<close>

lemma disconnect_loop_done: "n \<le> i \<Longrightarrow> disconnect_loop s r e sl i n v = Inr v"
  by (subst disconnect_loop.simps) simp

lemma disconnect_loop_step:
  assumes "i < n" "i < length (storage v)" "heap v (storage v ! i) = Some c"
  shows "disconnect_loop s r e sl i n v =
     (if matches s r e sl c
      then (case erase i (v\<lparr>heap := (heap v)(storage v ! i := None)\<rparr>) of
              Inl x \<Rightarrow> Inl x
            | Inr v' \<Rightarrow> disconnect_loop s r e sl (Suc i) n v')
      else disconnect_loop s r e sl (Suc i) n v)"
  using assms by (subst disconnect_loop.simps) (simp add: Let_def matches_def)

lemma snap_of_mem: "a \<in> set as \<Longrightarrow> hp a = Some c \<Longrightarrow> (a, c) \<in> set (snap_of hp as)"
  by (induction as) (auto split: option.splits)

lemma disconnect_loop_no_match:
  assumes wf: "wf_chan v" and nm: "\<forall>(a, c)\<in>set (snapshot v). \<not> matches s r e sl c"
  shows "n \<le> length (elems v) \<Longrightarrow> disconnect_loop s r e sl i n v = Inr v"
proof (induction "n - i" arbitrary: i)
  case 0
  then show ?case by (simp add: disconnect_loop_done)
next
  case (Suc k)
  then have i: "i < n" "i < length (elems v)" by simp_all
  then have mem: "elems v ! i \<in> set (elems v)" by simp
  with wf obtain c where c: "heap v (elems v ! i) = Some c"
    unfolding wf_chan_def by fastforce
  with mem have "(elems v ! i, c) \<in> set (snapshot v)"
    by (simp add: snapshot_def snap_of_mem)
  with nm have nmc: "\<not> matches s r e sl c" by auto
  have st: "storage v ! i = elems v ! i" "i < length (storage v)"
    using i by (simp_all add: storage_def nth_append)
  have "disconnect_loop s r e sl (Suc i) n v = Inr v"
    using Suc.hyps(1)[of "Suc i"] Suc.hyps(2) Suc.prems by simp
  then show ?case
    using disconnect_loop_step[of i n v c s r e sl] i st c nmc by simp
qed

lemma wf_erase:
  assumes "wf_chan v" "i < length (elems v)"
    and "erase i (v\<lparr>heap := (heap v)(elems v ! i := None)\<rparr>) = Inr v'"
  shows "wf_chan v'"
proof -
  have v': "v' = v\<lparr>heap := (heap v)(elems v ! i := None),
                  elems := take i (elems v) @ drop (Suc i) (elems v),
                  slack := last (elems v) # slack v\<rparr>"
    using assms(2,3) by (auto simp add: erase_def)
  have d: "distinct (elems v)" using assms(1) by (simp add: wf_chan_def)
  have idl: "elems v = take i (elems v) @ elems v ! i # drop (Suc i) (elems v)"
    using assms(2) by (simp add: id_take_nth_drop[symmetric])
  have d2: "distinct (take i (elems v) @ elems v ! i # drop (Suc i) (elems v))"
    using d idl by simp
  have notin: "elems v ! i \<notin> set (take i (elems v) @ drop (Suc i) (elems v))"
    using d2 by auto
  have sub: "set (take i (elems v) @ drop (Suc i) (elems v)) \<subseteq> set (elems v)"
    by (auto dest: in_set_takeD in_set_dropD)
  have d': "distinct (take i (elems v) @ drop (Suc i) (elems v))"
    using d2 by auto
  show ?thesis
    unfolding wf_chan_def v' using assms(1) notin sub d'
    by (auto simp add: wf_chan_def)
qed

lemma wf_disconnect_loop:
  "wf_chan v \<Longrightarrow> disconnect_loop s r e sl i n v = Inr v' \<Longrightarrow> wf_chan v'"
proof (induction "n - i" arbitrary: i v)
  case 0
  then show ?case by (simp add: disconnect_loop_done)
next
  case (Suc k)
  then have i: "i < n" by simp
  have run: "disconnect_loop s r e sl i n v = Inr v'" by fact
  show ?case
  proof (cases "length (storage v) \<le> i")
    case True
    with run i show ?thesis by (subst (asm) disconnect_loop.simps) simp
  next
    case False
    show ?thesis
    proof (cases "heap v (storage v ! i)")
      case None
      with run i False show ?thesis by (subst (asm) disconnect_loop.simps) simp
    next
      case (Some c)
      have step: "disconnect_loop s r e sl i n v =
        (if matches s r e sl c
         then (case erase i (v\<lparr>heap := (heap v)(storage v ! i := None)\<rparr>) of
              Inl x \<Rightarrow> Inl x
            | Inr v' \<Rightarrow> disconnect_loop s r e sl (Suc i) n v')
         else disconnect_loop s r e sl (Suc i) n v)"
        using disconnect_loop_step[of i n v c s r e sl] i False Some by simp
      show ?thesis
      proof (cases "matches s r e sl c")
        case nm: False
        with run step have "disconnect_loop s r e sl (Suc i) n v = Inr v'" by simp
        with Suc.hyps(1)[of "Suc i" v] Suc.hyps(2) Suc.prems(1) show ?thesis by simp
      next
        case m: True
        let ?v1 = "v\<lparr>heap := (heap v)(storage v ! i := None)\<rparr>"
        from run step m obtain v2 where
          e: "erase i ?v1 = Inr v2" and r2: "disconnect_loop s r e sl (Suc i) n v2 = Inr v'"
          by (auto split: sum.splits)
        from e have il: "i < length (elems v)" by (auto simp add: erase_def split: if_splits)
        then have "storage v ! i = elems v ! i" by (simp add: storage_def nth_append)
        with e have "erase i (v\<lparr>heap := (heap v)(elems v ! i := None)\<rparr>) = Inr v2" by simp
        from wf_erase[OF Suc.prems(1) il this] have "wf_chan v2" .
        with Suc.hyps(1)[of "Suc i" v2] Suc.hyps(2) r2 show ?thesis by simp
      qed
    qed
  qed
qed

lemma wf_disconnect_chan:
  "wf_chan v \<Longrightarrow> disconnect_chan s r e sl v = Inr v' \<Longrightarrow> wf_chan v'"
  unfolding disconnect_chan_def by (rule wf_disconnect_loop)
lemma disconnect_loop_skip:
  assumes "m \<le> n"
  shows "i \<le> m \<Longrightarrow>
     \<forall>j. i \<le> j \<and> j < m \<longrightarrow> j < length (storage v) \<and>
             (\<exists>c. heap v (storage v ! j) = Some c \<and> \<not> matches s r e sl c) \<Longrightarrow>
     disconnect_loop s r e sl i n v = disconnect_loop s r e sl m n v"
proof (induction "m - i" arbitrary: i)
  case 0
  then show ?case by simp
next
  case (Suc k)
  then have im: "i < m" by simp
  with Suc.prems(2) obtain c where
    c: "i < length (storage v)" "heap v (storage v ! i) = Some c" "\<not> matches s r e sl c"
    by auto
  have "disconnect_loop s r e sl (Suc i) n v = disconnect_loop s r e sl m n v"
    using Suc.hyps(1)[of "Suc i"] Suc.hyps(2) Suc.prems(2) im by simp
  then show ?case
    using disconnect_loop_step[of i n v c s r e sl] im assms c by simp
qed

lemma snap_of_none:
  "\<forall>b\<in>set as. \<exists>cb. hp b = Some cb \<and> \<not> P cb \<Longrightarrow>
   filter (\<lambda>(b, c). P c) (snap_of hp as) = []"
  by (induction as) (auto split: option.splits)

lemma snap_of_keep:
  "a \<notin> set as \<Longrightarrow> filter (\<lambda>(b, cb). b \<noteq> a) (snap_of hp as) = snap_of hp as"
  by (induction as) (auto split: option.splits)

lemma snap_of_filter_single:
  assumes "distinct (xs @ a # ys)" and "\<forall>b\<in>set (xs @ a # ys). hp b \<noteq> None"
    and "filter (\<lambda>(b, c). P c) (snap_of hp (xs @ a # ys)) = [(a, c)]"
  shows "\<forall>b\<in>set xs \<union> set ys. \<exists>cb. hp b = Some cb \<and> \<not> P cb"
proof
  fix b assume b: "b \<in> set xs \<union> set ys"
  then have "b \<in> set (xs @ a # ys)" by auto
  with assms(2) obtain cb where cb: "hp b = Some cb" by auto
  have ne: "b \<noteq> a" using assms(1) b by auto
  have "(b, cb) \<in> set (snap_of hp (xs @ a # ys))"
    using b cb by (intro snap_of_mem) auto
  then have "P cb \<Longrightarrow> (b, cb) \<in> set (filter (\<lambda>(b, c). P c) (snap_of hp (xs @ a # ys)))"
    by simp
  with assms(3) ne have "\<not> P cb" by auto
  with cb show "\<exists>cb. hp b = Some cb \<and> \<not> P cb" by blast
qed

subsection \<open>Observations and examples\<close>

lemma inert_counting: "inert counting"
  unfolding inert_def counting_def by blast

lemma emitted_inert:
  assumes "inert h" "wf_chan (chans st sg)"
  shows "emitted st (fireAllSlots h sg sender signal args st) =
           Inr (emission sender signal args (snapshot (chans st sg)))"
proof -
  from fireAllSlots_inert[OF assms] obtain u where
    "fireAllSlots h sg sender signal args st =
      Inr (st\<lparr>trace := trace st @ emission sender signal args (snapshot (chans st sg)), user := u\<rparr>)"
    by blast
  then show ?thesis by (simp add: emitted_def)
qed





lemma chans_connect_same:
  "chans (connect sg s r e sl st) sg = connect_chan s r e sl (chans st sg)"
  by (simp add: connect_def)

lemma trace_connect: "trace (connect sg s r e sl st) = trace st"
  by (simp add: connect_def)

lemma matches_Connection: "matches s r e sl (Connection s r e sl)"
  by (simp add: matches_def Connection_def isSender_def isReceiver_def isSignal_def isSlot_def)

lemma wf_init: "wf_chan (chans (init u) sg)"
  by (simp add: init_def wf_empty_chan)

lemma snapshot_init: "snapshot (chans (init u) sg) = []"
  by (simp add: init_def snapshot_def empty_chan_def)

lemma wf_demo: "wf_chan (chans demo sg)"
  by (simp add: demo_def wf_init)

lemma snapshot_demo: "snapshot (chans demo sg) = []"
  by (simp add: demo_def snapshot_init)


lemma wf_connect: "wf_chan (chans st sg') \<Longrightarrow> wf_chan (chans (connect sg s r e sl st) sg')"
  by (auto simp add: connect_def wf_connect_chan)

lemma nxt_demo: "nxt (chans demo sg) = 1"
  by (simp add: demo_def init_def empty_chan_def)

lemma fire_loop_null_sender:
  "gen (chans st sg) = g \<Longrightarrow> n \<le> length (elems (chans st sg)) \<Longrightarrow>
   fire_loop h sg 0 signal args g p n st = Inr st"
proof (induction "n - p" arbitrary: p)
  case 0
  then show ?case by (simp add: fire_loop_done)
next
  case (Suc k)
  then have "p < n" "p < length (storage (chans st sg))" by (simp_all add: storage_def)
  moreover have "fire_loop h sg 0 signal args g (Suc p) n st = Inr st"
    using Suc.hyps(1)[of "Suc p"] Suc.hyps(2) Suc.prems by simp
  ultimately show ?case
    using Suc.prems(1) by (subst fire_loop.simps) (simp add: Let_def)
qed

lemma snapshot_three_bound:
  "snapshot (chans three_bound [''int'']) =
     [(1, Connection 1 2 4 3), (2, Connection 1 5 4 3), (3, Connection 1 6 4 3)]"
  by (simp add: three_bound_def chans_connect_same snapshot_connect_chan nxt_connect_chan
        wf_connect_chan wf_demo snapshot_demo nxt_demo)

lemma wf_three_bound: "wf_chan (chans three_bound [''int''])"
  by (simp add: three_bound_def wf_connect wf_demo)


lemma keeps_counting: "keeps sg counting"
  by (rule inert_keeps) (rule inert_counting)

lemma fire_loop_keeps:
  assumes k: "keeps sg' h"
  shows "fire_loop h sg sender signal args g p n st = Inr st' \<Longrightarrow> chans st' sg' = chans st sg'"
proof (induction "n - p" arbitrary: p st)
  case 0
  then show ?case by (simp add: fire_loop_done)
next
  case (Suc k)
  then have pn: "p < n" by simp
  have IH: "\<And>st1. fire_loop h sg sender signal args g (Suc p) n st1 = Inr st' \<Longrightarrow>
      chans st' sg' = chans st1 sg'"
    using Suc.hyps(1)[of "Suc p"] Suc.hyps(2) by simp
  let ?a = "storage (chans st sg) ! p"
  let ?st1 = "st\<lparr>trace := trace st @ [Fired ?a args]\<rparr>"
  from Suc.prems pn have ok: "gen (chans st sg) = g" "p < length (storage (chans st sg))"
    by (subst (asm) fire_loop.simps, simp split: if_splits)+
  show ?case
  proof (cases "sender \<noteq> 0 \<and> ?a \<noteq> 0")
    case False
    with Suc.prems pn ok have "fire_loop h sg sender signal args g (Suc p) n st = Inr st'"
      by (subst (asm) fire_loop.simps) (auto simp add: Let_def)
    then show ?thesis by (rule IH)
  next
    case True
    with Suc.prems pn ok obtain c where c: "heap (chans st sg) ?a = Some c"
      by (subst (asm) fire_loop.simps) (auto simp add: Let_def split: option.splits)
    show ?thesis
    proof (cases "isSender c sender \<and> isSignal c signal")
      case False
      with Suc.prems pn ok True c
      have "fire_loop h sg sender signal args g (Suc p) n st = Inr st'"
        by (subst (asm) fire_loop.simps) (auto simp add: Let_def)
      then show ?thesis by (rule IH)
    next
      case m: True
      with Suc.prems pn ok True c obtain st1 where
        f: "fireSlot h c args ?st1 = Inr st1" and
        r: "fire_loop h sg sender signal args g (Suc p) n st1 = Inr st'"
        by (subst (asm) fire_loop.simps) (auto simp add: Let_def split: sum.splits)
      from fireSlot_keeps[OF k f] IH[OF r] show ?thesis by simp
    qed
  qed
qed

lemma wf_other_bound: "wf_chan (chans other_bound sg)"
  by (simp add: other_bound_def wf_connect wf_demo)
lemma elems_three_bound: "elems (chans three_bound [''int'']) = [1, 2, 3]"
  by (simp add: three_bound_def chans_connect_same elems_connect_chan nxt_connect_chan
        nxt_demo demo_def init_def empty_chan_def)

lemma reachable_three_bound: "reachable (chans three_bound [''int''])"
  unfolding three_bound_def chans_connect_same demo_def init_def
  by (simp add: reachable.empty reachable.connected)

subsection \<open>Emissions whose slots leave the channel alone\<close>


lemma fire_loop_walk_undisturbed:
  assumes wf: "wf_chan v"
  shows "chans st sg = v \<Longrightarrow> gen v = g \<Longrightarrow> n \<le> length (elems v) \<Longrightarrow>
     undisturbed h sg sender signal args (snap_of (heap v) (drop p (take n (elems v)))) st \<Longrightarrow>
     fire_loop h sg sender signal args g p n st =
     walk_snapshot h sender signal args (snap_of (heap v) (drop p (take n (elems v)))) st"
proof (induction "n - p" arbitrary: p st)
  case 0
  then show ?case by (simp add: fire_loop_done)
next
  case (Suc k)
  then have pn: "p < n" by simp
  with Suc.prems have pl: "p < length (elems v)" by simp
  have tn: "take n (elems v) ! p = elems v ! p" "p < length (take n (elems v))"
    using pn pl by simp_all
  have mem: "elems v ! p \<in> set (elems v)" using pl by simp
  with wf obtain c where c: "heap v (elems v ! p) = Some c" and nz: "elems v ! p \<noteq> 0"
    unfolding wf_chan_def by fastforce
  let ?a = "elems v ! p"
  let ?rest = "snap_of (heap v) (drop (Suc p) (take n (elems v)))"
  have dr: "snap_of (heap v) (drop p (take n (elems v))) = (?a, c) # ?rest"
    using snap_of_drop[of p "take n (elems v)" "heap v" c] tn c by simp
  have IH: "\<And>st'. chans st' sg = v \<Longrightarrow> undisturbed h sg sender signal args ?rest st' \<Longrightarrow>
     fire_loop h sg sender signal args g (Suc p) n st' =
     walk_snapshot h sender signal args ?rest st'"
    using Suc.hyps(1)[of "Suc p"] Suc.hyps(2) Suc.prems(2,3) by simp
  have step: "fire_loop h sg sender signal args g p n st =
     (if sender \<noteq> 0 \<and> isSender c sender \<and> isSignal c signal
      then (case fireSlot h c args (st\<lparr>trace := trace st @ [Fired ?a args]\<rparr>) of
              Inl e \<Rightarrow> Inl e
            | Inr st' \<Rightarrow> fire_loop h sg sender signal args g (Suc p) n st')
      else fire_loop h sg sender signal args g (Suc p) n st)"
    using fire_loop_step[of p n st sg g c h sender signal args] pn pl c nz Suc.prems(1,2) by simp
  have und: "undisturbed h sg sender signal args ((?a, c) # ?rest) st"
    using Suc.prems(4) dr by simp
  show ?case
  proof (cases "sender \<noteq> 0 \<and> isSender c sender \<and> isSignal c signal")
    case False
    with und have "undisturbed h sg sender signal args ?rest st" by auto
    from IH[OF Suc.prems(1) this] False show ?thesis using step dr by auto
  next
    case True
    let ?st1 = "st\<lparr>trace := trace st @ [Fired ?a args]\<rparr>"
    show ?thesis
    proof (cases "fireSlot h c args ?st1")
      case (Inl e)
      then show ?thesis using True step dr by simp
    next
      case (Inr st')
      have "chans st' sg = v \<and> undisturbed h sg sender signal args ?rest st'"
      proof (cases "c_receiver c \<noteq> 0 \<and> c_slot c \<noteq> 0")
        case rs: True
        with Inr have "h (c_receiver c) (c_slot c) args
            (st\<lparr>trace := trace st @ [Fired ?a args, Called (c_receiver c) (c_slot c) args]\<rparr>) = Inr st'"
          by (simp add: fireSlot_def)
        with und True rs Suc.prems(1) show ?thesis by simp
      next
        case rs: False
        with Inr have "st' = ?st1" by (auto simp add: fireSlot_def)
        with und True rs Suc.prems(1) show ?thesis by auto
      qed
      then have "fire_loop h sg sender signal args g (Suc p) n st' =
          walk_snapshot h sender signal args ?rest st'" using IH by simp
      then show ?thesis using True step dr Inr by simp
    qed
  qed
qed

lemma fireAllSlots_undisturbed:
  "wf_chan (chans st sg) \<Longrightarrow> undisturbed_emit h sg sender signal args st \<Longrightarrow>
   fireAllSlots h sg sender signal args st = emit_snapshot h sg sender signal args st"
  unfolding fireAllSlots_def emit_snapshot_def undisturbed_emit_def
  using fire_loop_walk_undisturbed[of "chans st sg" st sg "gen (chans st sg)"
          "length (elems (chans st sg))" h sender signal args 0]
  by (simp add: snapshot_def)








lemma wf_rest_bound: "wf_chan (chans rest_bound sg)"
  by (simp add: rest_bound_def wf_connect wf_demo)

lemma snapshot_rest_bound:
  "snapshot (chans rest_bound [''int'']) = [(1, Connection 1 5 4 3), (2, Connection 1 6 4 3)]"
  by (simp add: rest_bound_def chans_connect_same snapshot_connect_chan nxt_connect_chan
        wf_connect_chan wf_demo snapshot_demo nxt_demo)





lemma keeps_undisturbed:
  assumes "keeps sg h"
  shows "undisturbed h sg sender signal args cs st"
proof (induction cs arbitrary: st)
  case Nil
  show ?case by simp
next
  case (Cons ac cs)
  obtain a c where ac: "ac = (a, c)" by (cases ac)
  from assms Cons.IH show ?case
    unfolding ac keeps_def by (fastforce split: sum.splits)
qed

section \<open>The claims\<close>

text \<open>
  Claim C1 fails on the code. The tuple (1, 2, 4, 3) is connected twice and the tuple
  (1, 5, 4, 3) once; one disconnect of (1, 2, 4, 3) removes the first duplicate and
  steps over the second, which has moved into the erased position. The binding at
  address 2 is still in the channel and the next emission calls its slot once.
\<close>

theorem disconnect_skips_adjacent_duplicate:
  "map_sum id (\<lambda>st. bindings_of 1 2 4 3 (chans st [''int'']))
     (disconnect [''int''] 1 2 4 3 doubled) = Inr [(2, Connection 1 2 4 3)] \<and>
   (case disconnect [''int''] 1 2 4 3 doubled of
      Inl e \<Rightarrow> Inl e
    | Inr st \<Rightarrow> emit_calls counting [''int''] 1 4 [7] 2 3 st) = Inr [[7]]"
  by code_simp

text \<open>
  With the two duplicates alone in the channel, the loop reads the slot past the new
  end, finds the second duplicate there, deletes it and erases at a position that no
  longer holds an element.
\<close>

lemma disconnect_twice_bound_undefined:
  "map_sum id (\<lambda>st. bindings_of 1 2 4 3 (chans st [''int'']))
     (disconnect [''int''] 1 2 4 3 twice_bound) = Inl EraseOutOfRange"
  by code_simp







text \<open>
  Claim C4. On a well formed channel in which no connection matches all four
  identities, disconnect returns normally and the state it returns is the state it
  was given.
\<close>

theorem disconnect_no_match_noop:
  assumes "wf_chan (chans st sg)"
    and "bindings_of sender receiver signal slot (chans st sg) = []"
  shows "disconnect sg sender receiver signal slot st = Inr st"
proof -
  have "\<forall>(a, c)\<in>set (snapshot (chans st sg)). \<not> matches sender receiver signal slot c"
    using assms(2) unfolding bindings_of_def by (auto simp add: filter_empty_conv)
  from disconnect_loop_no_match[OF assms(1) this, of "length (elems (chans st sg))" 0]
  show ?thesis by (simp add: disconnect_def disconnect_chan_def)
qed

theorem disconnect_no_match_noop_witness:
  "wf_chan (chans two_bound [''int'']) \<and>
   bindings_of 1 2 4 3 (chans two_bound [''int'']) = [] \<and>
   disconnect [''int''] 1 2 4 3 two_bound = Inr two_bound"
proof -
  have wf: "wf_chan (chans two_bound [''int''])"
    by (simp add: two_bound_def wf_connect wf_demo)
  have b: "bindings_of 1 2 4 3 (chans two_bound [''int'']) = []"
    by (simp add: two_bound_def bindings_of_def chans_connect_same snapshot_connect_chan
          wf_connect_chan wf_demo snapshot_demo matches_def Connection_def isSender_def
          isReceiver_def isSignal_def isSlot_def)
  from disconnect_no_match_noop[OF wf b] wf b show ?thesis by simp
qed

text \<open>
  Claim C5. For two different signatures \<open>sg\<close> and \<open>sg'\<close>: connect and disconnect on
  \<open>sg\<close> leave the channel of \<open>sg'\<close> unchanged; so does an emission on \<open>sg\<close>, as far
  as the slots it calls leave it unchanged; and a binding registered on \<open>sg\<close> changes
  nothing in what an emission on \<open>sg'\<close> does, also for the same sender and signal.
\<close>

theorem channels_isolated:
  assumes "sg \<noteq> sg'"
  shows "chans (connect sg s r e sl st) sg' = chans st sg' \<and>
         (disconnect sg s r e sl st = Inr st1 \<longrightarrow> chans st1 sg' = chans st sg') \<and>
         (keeps sg' h \<longrightarrow> fireAllSlots h sg s e x st = Inr st2 \<longrightarrow>
            chans st2 sg' = chans st sg') \<and>
         (inert h \<longrightarrow> wf_chan (chans st sg') \<longrightarrow>
            emitted (connect sg s r e sl st)
              (fireAllSlots h sg' s e x (connect sg s r e sl st)) =
            emitted st (fireAllSlots h sg' s e x st))"
proof -
  have c: "chans (connect sg s r e sl st) sg' = chans st sg'"
    using assms by (simp add: connect_def)
  have d: "disconnect sg s r e sl st = Inr st1 \<longrightarrow> chans st1 sg' = chans st sg'"
    using assms by (auto simp add: disconnect_def split: sum.splits)
  have f: "keeps sg' h \<longrightarrow> fireAllSlots h sg s e x st = Inr st2 \<longrightarrow>
            chans st2 sg' = chans st sg'"
    unfolding fireAllSlots_def by (intro impI) (rule fire_loop_keeps)
  have i: "inert h \<longrightarrow> wf_chan (chans st sg') \<longrightarrow>
            emitted (connect sg s r e sl st)
              (fireAllSlots h sg' s e x (connect sg s r e sl st)) =
            emitted st (fireAllSlots h sg' s e x st)"
  proof (intro impI)
    assume h: "inert h" and wf: "wf_chan (chans st sg')"
    from wf c have wf1: "wf_chan (chans (connect sg s r e sl st) sg')" by simp
    show "emitted (connect sg s r e sl st)
              (fireAllSlots h sg' s e x (connect sg s r e sl st)) =
            emitted st (fireAllSlots h sg' s e x st)"
      using emitted_inert[OF h wf, of s e x] emitted_inert[OF h wf1, of s e x] c by simp
  qed
  from c d f i show ?thesis by blast
qed

theorem channels_isolated_witness:
  "[''int''] \<noteq> [''int'', ''int''] \<and>
   chans (connect [''int''] 1 2 4 3 other_bound) [''int'', ''int''] =
     chans other_bound [''int'', ''int''] \<and>
   \<not> isl (disconnect [''int''] 1 2 4 3 (connect [''int''] 1 2 4 3 other_bound)) \<and>
   chans (projr (disconnect [''int''] 1 2 4 3 (connect [''int''] 1 2 4 3 other_bound)))
     [''int'', ''int''] = chans (connect [''int''] 1 2 4 3 other_bound) [''int'', ''int''] \<and>
   keeps [''int'', ''int''] (counting :: (string list, int list, nat) slots) \<and>
   \<not> isl (fireAllSlots counting [''int''] 1 4 [7] (connect [''int''] 1 2 4 3 other_bound)) \<and>
   chans (projr (fireAllSlots counting [''int''] 1 4 [7] (connect [''int''] 1 2 4 3 other_bound)))
     [''int'', ''int''] = chans (connect [''int''] 1 2 4 3 other_bound) [''int'', ''int''] \<and>
   inert (counting :: (string list, int list, nat) slots) \<and>
   wf_chan (chans other_bound [''int'']) \<and>
   emitted (connect [''int'', ''int''] 1 2 4 3 demo)
     (fireAllSlots counting [''int''] 1 4 [7] (connect [''int'', ''int''] 1 2 4 3 demo)) = Inr [] \<and>
   emitted demo (fireAllSlots counting [''int''] 1 4 [7] demo) = Inr []"
proof -
  let ?Y = "connect [''int''] 1 2 4 3 other_bound"
  have ne: "[''int''] \<noteq> [''int'', ''int'']" by simp
  have ne2: "[''int'', ''int''] \<noteq> [''int'']" by simp
  have d: "\<not> isl (disconnect [''int''] 1 2 4 3 ?Y)" by code_simp
  then have d': "disconnect [''int''] 1 2 4 3 ?Y = Inr (projr (disconnect [''int''] 1 2 4 3 ?Y))"
    by simp
  have f: "\<not> isl (fireAllSlots counting [''int''] 1 4 [7] ?Y)" by code_simp
  then have f': "fireAllSlots counting [''int''] 1 4 [7] ?Y =
      Inr (projr (fireAllSlots counting [''int''] 1 4 [7] ?Y))" by simp
  have e: "emitted demo (fireAllSlots counting [''int''] 1 4 [7] demo) = Inr []" by code_simp
  note t1 = channels_isolated[OF ne, of 1 2 4 3 other_bound]
  note t2 = channels_isolated[OF ne, of 1 2 4 3 ?Y "projr (disconnect [''int''] 1 2 4 3 ?Y)"
      counting "[7]" "projr (fireAllSlots counting [''int''] 1 4 [7] ?Y)"]
  note t3 = channels_isolated[OF ne2, of 1 2 4 3 demo _ counting "[7]"]
  from t1 t2 t3 d d' f f' e show ?thesis
    by (simp add: keeps_counting inert_counting wf_other_bound wf_demo)
qed







text \<open>
  Claim C8, as amended. fireAllSlots iterates over the vector of the channel itself and
  takes no snapshot. On a well formed channel, when every slot call of the emission that
  returns leaves the channel as it found it, the emission does what a walk over a
  snapshot of the channel taken at the start of the call does. Slots that are not called
  in this emission may do what they like: in the example the slot of receiver 2 would
  disconnect, but only the receivers 5 and 6 are bound.
\<close>

theorem emit_walks_snapshot_if_kept:
  assumes "wf_chan (chans st sg)" and "undisturbed_emit h sg sender signal args st"
  shows "fireAllSlots h sg sender signal args st = emit_snapshot h sg sender signal args st"
  using assms by (rule fireAllSlots_undisturbed)

theorem emit_walks_snapshot_if_kept_witness:
  "wf_chan (chans rest_bound [''int'']) \<and>
   undisturbed_emit detaching [''int''] 1 4 [7] rest_bound \<and>
   fireAllSlots detaching [''int''] 1 4 [7] rest_bound =
     emit_snapshot detaching [''int''] 1 4 [7] rest_bound \<and>
   emit_fired detaching [''int''] 1 4 [7] rest_bound = Inr [(1, [7]), (2, [7])]"
proof -
  have u: "undisturbed_emit detaching [''int''] 1 4 [7] rest_bound"
    by (simp add: undisturbed_emit_def snapshot_rest_bound detaching_def Connection_def
          isSender_def isSignal_def)
  have f: "emit_fired detaching [''int''] 1 4 [7] rest_bound = Inr [(1, [7]), (2, [7])]"
    by code_simp
  from emit_walks_snapshot_if_kept[OF wf_rest_bound u] u f
  show ?thesis by (simp add: wf_rest_bound)
qed

text \<open>
  Claim C8 as stated fails: three receivers 2, 5 and 6 are bound to signal 4 of sender
  1, at addresses 1, 2 and 3, and the slot of receiver 2 disconnects its own binding
  when called. The emission then fires the connections 1, 3 and 3: the connection of
  receiver 5 is skipped and that of receiver 6 is fired twice, while a walk over a
  snapshot fires 1, 2 and 3.
\<close>

theorem emit_not_snapshot_counterexample:
  "emit_fired detaching [''int''] 1 4 [7] three_bound = Inr [(1, [7]), (3, [7]), (3, [7])] \<and>
   map fst (filter (\<lambda>(a, c). isSender c 1 \<and> isSignal c 4)
              (snapshot (chans three_bound [''int'']))) = [1, 2, 3] \<and>
   fireAllSlots detaching [''int''] 1 4 [7] three_bound \<noteq>
     emit_snapshot detaching [''int''] 1 4 [7] three_bound"
proof -
  have a: "emit_fired detaching [''int''] 1 4 [7] three_bound = Inr [(1, [7]), (3, [7]), (3, [7])]"
    by code_simp
  have b: "map fst (filter (\<lambda>(a, c). isSender c 1 \<and> isSignal c 4)
              (snapshot (chans three_bound [''int'']))) = [1, 2, 3]"
    by (simp add: snapshot_three_bound Connection_def isSender_def isSignal_def)
  have c: "emitted three_bound (emit_snapshot detaching [''int''] 1 4 [7] three_bound) =
      Inr [Fired 1 [7], Called 2 3 [7], Fired 2 [7], Called 5 3 [7], Fired 3 [7], Called 6 3 [7]]"
    by code_simp
  have d: "emitted three_bound (fireAllSlots detaching [''int''] 1 4 [7] three_bound) =
      Inr [Fired 1 [7], Called 2 3 [7], Fired 3 [7], Called 6 3 [7], Fired 3 [7], Called 6 3 [7]]"
    by code_simp
  have "fireAllSlots detaching [''int''] 1 4 [7] three_bound \<noteq>
     emit_snapshot detaching [''int''] 1 4 [7] three_bound"
  proof
    assume "fireAllSlots detaching [''int''] 1 4 [7] three_bound =
     emit_snapshot detaching [''int''] 1 4 [7] three_bound"
    with c d show False by simp
  qed
  with a b show ?thesis by simp
qed

text \<open>
  A slot that connects during the emission makes the full vector move to new storage;
  the walk then holds iterators into storage that is gone.
\<close>

lemma emit_with_attaching_slot_undefined:
  "emitted pair_bound (fireAllSlots attaching [''int''] 1 4 [7] pair_bound) =
     Inl InvalidIterator"
  by code_simp

text \<open>
  Claim C9. Invoking a connection calls the stored slot on the stored receiver when
  both are non-null, and only then; when either is null the invocation changes nothing.
\<close>

theorem fireSlot_guard:
  "(c_receiver c = 0 \<or> c_slot c = 0 \<longrightarrow> fireSlot h c args st = Inr st) \<and>
   (c_receiver c \<noteq> 0 \<and> c_slot c \<noteq> 0 \<longrightarrow>
      fireSlot h c args st =
        h (c_receiver c) (c_slot c) args
          (st\<lparr>trace := trace st @ [Called (c_receiver c) (c_slot c) args]\<rparr>))"
  by (simp add: fireSlot_def)

theorem fireSlot_guard_witness:
  "fireSlot counting (Connection 1 0 4 3) [7] demo = Inr demo \<and>
   fireSlot counting (Connection 1 2 4 0) [7] demo = Inr demo \<and>
   fireSlot counting (Connection 1 2 4 3) [7] demo =
     Inr (demo\<lparr>trace := [Called 2 3 [7]], user := 1\<rparr>)"
  using fireSlot_guard[of "Connection 1 0 4 3" counting "[7]" demo]
        fireSlot_guard[of "Connection 1 2 4 0" counting "[7]" demo]
        fireSlot_guard[of "Connection 1 2 4 3" counting "[7]" demo]
  by (simp add: Connection_def counting_def demo_def init_def)

text \<open>
  Claim C10. For every state, signal and argument list, fireAllSlots with a null
  sender returns the state it was given: no connection is fired, no slot is called and
  the channel is unchanged, whatever the channel holds (connections whose stored sender
  is null included).
\<close>

theorem emit_null_sender_fires_nothing:
  "fireAllSlots h sg 0 signal args st = Inr st"
  unfolding fireAllSlots_def by (rule fire_loop_null_sender) simp_all

theorem emit_null_sender_fires_nothing_witness:
  "bindings_of 0 2 4 3 (chans null_bound [''int'']) = [(1, Connection 0 2 4 3)] \<and>
   fireAllSlots counting [''int''] 0 4 [7] null_bound = Inr null_bound"
proof -
  have "bindings_of 0 2 4 3 (chans null_bound [''int'']) = [(1, Connection 0 2 4 3)]"
    by (simp add: null_bound_def bindings_of_def chans_connect_same snapshot_connect_chan
          wf_demo snapshot_demo matches_Connection nxt_demo)
  with emit_null_sender_fires_nothing[of counting "[''int'']" 4 "[7]" null_bound]
  show ?thesis by simp
qed

section \<open>Further properties of disconnect\<close>

text \<open>
  When exactly one connection of a well formed channel matches the tuple, disconnect
  returns normally and removes it: the object is deleted, the other connections stay
  in their order, and no binding of the tuple is left.
\<close>

theorem disconnect_removes_single_match:
  assumes wf: "wf_chan v" and el: "elems v = xs @ a # ys"
    and one: "bindings_of s r e sl v = [(a, c)]"
  shows "disconnect_chan s r e sl v =
           Inr (v\<lparr>heap := (heap v)(a := None), elems := xs @ ys,
                  slack := last (a # ys) # slack v\<rparr>) \<and>
         bindings_of s r e sl
           (v\<lparr>heap := (heap v)(a := None), elems := xs @ ys,
              slack := last (a # ys) # slack v\<rparr>) = [] \<and>
         snapshot (v\<lparr>heap := (heap v)(a := None), elems := xs @ ys,
                     slack := last (a # ys) # slack v\<rparr>) =
           filter (\<lambda>(b, cb). b \<noteq> a) (snapshot v)"
proof -
  let ?n = "length (elems v)"
  let ?k = "length xs"
  let ?v1 = "v\<lparr>heap := (heap v)(a := None), elems := xs @ ys,
                slack := last (a # ys) # slack v\<rparr>"
  have d: "distinct (xs @ a # ys)" and al: "\<forall>b\<in>set (xs @ a # ys). heap v b \<noteq> None"
    using wf el by (auto simp add: wf_chan_def)
  have others: "\<forall>b\<in>set xs \<union> set ys. \<exists>cb. heap v b = Some cb \<and> \<not> matches s r e sl cb"
    using snap_of_filter_single[OF d al, of "matches s r e sl" c] one
    by (simp add: bindings_of_def snapshot_def el)
  have "(a, c) \<in> set (filter (\<lambda>(b, c). matches s r e sl c) (snapshot v))"
    using one by (simp add: bindings_of_def)
  then have ac: "(a, c) \<in> set (snapshot v)" and m: "matches s r e sl c" by auto
  have hc: "heap v a = Some c"
  proof -
    have "\<And>as. (a, c) \<in> set (snap_of (heap v) as) \<Longrightarrow> heap v a = Some c"
    proof -
      fix as show "(a, c) \<in> set (snap_of (heap v) as) \<Longrightarrow> heap v a = Some c"
        by (induction as) (auto split: option.splits)
    qed
    with ac show ?thesis by (simp add: snapshot_def)
  qed
  have n: "?n = Suc (?k + length ys)" by (simp add: el)
  have pre: "disconnect_loop s r e sl 0 ?n v = disconnect_loop s r e sl ?k ?n v"
  proof (rule disconnect_loop_skip)
    show "?k \<le> ?n" by (simp add: el)
    show "0 \<le> ?k" by simp
    show "\<forall>j. 0 \<le> j \<and> j < ?k \<longrightarrow> j < length (storage v) \<and>
             (\<exists>c. heap v (storage v ! j) = Some c \<and> \<not> matches s r e sl c)"
    proof (intro allI impI)
      fix j assume "0 \<le> j \<and> j < ?k"
      then have j: "j < ?k" by simp
      then have "storage v ! j = xs ! j" by (simp add: storage_def el nth_append)
      moreover have "xs ! j \<in> set xs \<union> set ys" using j by simp
      ultimately show "j < length (storage v) \<and>
             (\<exists>c. heap v (storage v ! j) = Some c \<and> \<not> matches s r e sl c)"
        using others j by (auto simp add: storage_def el)
    qed
  qed
  have sk: "storage v ! ?k = a" "?k < length (storage v)"
    by (simp_all add: storage_def el nth_append)
  have er: "erase ?k (v\<lparr>heap := (heap v)(a := None)\<rparr>) = Inr ?v1"
    by (simp add: erase_def el)
  have step: "disconnect_loop s r e sl ?k ?n v = disconnect_loop s r e sl (Suc ?k) ?n ?v1"
    using disconnect_loop_step[of ?k ?n v c s r e sl] sk hc m er n by simp
  have post: "disconnect_loop s r e sl (Suc ?k) ?n ?v1 = disconnect_loop s r e sl ?n ?n ?v1"
  proof (rule disconnect_loop_skip)
    show "?n \<le> ?n" by simp
    show "Suc ?k \<le> ?n" by (simp add: n)
    show "\<forall>j. Suc ?k \<le> j \<and> j < ?n \<longrightarrow> j < length (storage ?v1) \<and>
             (\<exists>c. heap ?v1 (storage ?v1 ! j) = Some c \<and> \<not> matches s r e sl c)"
    proof (intro allI impI)
      fix j assume "Suc ?k \<le> j \<and> j < ?n"
      then have j: "Suc ?k \<le> j" "j < Suc (?k + length ys)" using n by simp_all
      then have ys: "ys \<noteq> []" by auto
      have "storage ?v1 ! j \<in> set ys"
      proof (cases "j < ?k + length ys")
        case True
        then have lt: "j - ?k < length ys" "\<not> j < ?k" using j by arith+
        then have "storage ?v1 ! j = ys ! (j - ?k)"
          by (simp add: storage_def nth_append)
        then show ?thesis using lt by simp
      next
        case False
        then have "j = ?k + length ys" using j by simp
        then have "storage ?v1 ! j = last (a # ys)"
          by (simp add: storage_def nth_append)
        then have "storage ?v1 ! j = last ys" using ys by simp
        then show ?thesis using ys by simp
      qed
      moreover have "j < length (storage ?v1)" using j by (simp add: storage_def)
      moreover have "\<forall>b\<in>set ys. b \<noteq> a" using d by auto
      ultimately show "j < length (storage ?v1) \<and>
             (\<exists>c. heap ?v1 (storage ?v1 ! j) = Some c \<and> \<not> matches s r e sl c)"
        using others by auto
    qed
  qed
  have run: "disconnect_chan s r e sl v = Inr ?v1"
    unfolding disconnect_chan_def using pre step post
    by (simp add: disconnect_loop_done)
  have fresh: "a \<notin> set (xs @ ys)" using d by auto
  have s1: "snapshot ?v1 = snap_of (heap v) xs @ snap_of (heap v) ys"
    using fresh by (simp add: snapshot_def snap_of_fresh snap_of_append)
  have nb: "bindings_of s r e sl ?v1 = []"
    unfolding bindings_of_def s1 using others by (simp add: snap_of_none)
  have s2: "filter (\<lambda>(b, cb). b \<noteq> a) (snapshot v) =
      snap_of (heap v) xs @ snap_of (heap v) ys"
    using fresh hc by (simp add: snapshot_def el snap_of_append snap_of_keep)
  from run nb s1 s2 show ?thesis by simp
qed

theorem disconnect_removes_single_match_witness:
  "wf_chan (chans three_bound [''int'']) \<and>
   elems (chans three_bound [''int'']) = [1] @ 2 # [3] \<and>
   bindings_of 1 5 4 3 (chans three_bound [''int'']) = [(2, Connection 1 5 4 3)] \<and>
   map_sum id elems (disconnect_chan 1 5 4 3 (chans three_bound [''int''])) = Inr [1, 3] \<and>
   map_sum id snapshot (disconnect_chan 1 5 4 3 (chans three_bound [''int''])) =
     Inr [(1, Connection 1 2 4 3), (3, Connection 1 6 4 3)]"
proof -
  have e: "elems (chans three_bound [''int'']) = [1] @ 2 # [3]"
    by (simp add: elems_three_bound)
  have b: "bindings_of 1 5 4 3 (chans three_bound [''int'']) = [(2, Connection 1 5 4 3)]"
    by (simp add: bindings_of_def snapshot_three_bound matches_def Connection_def
          isSender_def isReceiver_def isSignal_def isSlot_def)
  from disconnect_removes_single_match[OF wf_three_bound e b] e b show ?thesis
    by (simp add: wf_three_bound snapshot_three_bound)
qed

text \<open>
  Every channel that connect and returning disconnect calls build from the empty channel
  is well formed: its vector holds no pointer twice and no pointer to a deleted object.
\<close>

theorem reachable_wf: "reachable v \<Longrightarrow> wf_chan v"
  by (induction rule: reachable.induct)
     (auto intro: wf_empty_chan wf_connect_chan wf_disconnect_chan)

theorem reachable_wf_witness:
  "reachable (chans three_bound [''int'']) \<and> wf_chan (chans three_bound [''int''])"
  using reachable_wf[OF reachable_three_bound] reachable_three_bound by simp

end
